theory Spec2Isabelle
  imports Main "HOL-Library.Sublist"
begin

section \<open>The schema.org validator of lighthouse-core/lib/sd-validation/schema-validator.js\<close>

text \<open>
  JavaScript strings are modelled as \<^typ>\<open>string\<close>. The only characters the code inspects
  are ASCII (the schema.org URL, \<open>@\<close>, \<open>-input\<close>, \<open>-output\<close>), every other code unit is
  carried along unchanged.
\<close>

subsection \<open>\<open>SCHEMA_ORG_URL_REGEX\<close> and \<open>cleanName\<close>\<close>

text \<open>Matching a literal piece of the pattern at the start of a string; the result is
  what follows the piece.\<close>

fun strip_literal :: "string \<Rightarrow> string \<Rightarrow> string option" where
  "strip_literal [] s = Some s"
| "strip_literal (p # ps) [] = None"
| "strip_literal (p # ps) (c # cs) = (if p = c then strip_literal ps cs else None)"

text \<open>
  \<^verbatim>\<open>const SCHEMA_ORG_URL_REGEX = /https?:\/\/schema\.org\//;\<close>

  The pattern has no anchor and no flag. A match that starts at the first character of
  \<open>s\<close> reads \<open>http\<close>, then greedily an optional \<open>s\<close>, then \<open>://schema.org/\<close>; when the
  greedy choice fails the matcher backtracks to the choice without the \<open>s\<close>. The result is
  the rest of the string after the match.
\<close>

definition SCHEMA_ORG_URL_REGEX_at :: "string \<Rightarrow> string option" where
  "SCHEMA_ORG_URL_REGEX_at s =
     (case strip_literal ''http'' s of
        None \<Rightarrow> None
      | Some r \<Rightarrow>
          (case (case strip_literal ''s'' r of
                   None \<Rightarrow> None
                 | Some r' \<Rightarrow> strip_literal ''://schema.org/'' r') of
             Some rest \<Rightarrow> Some rest
           | None \<Rightarrow> strip_literal ''://schema.org/'' r))"

text \<open>\<^verbatim>\<open>SCHEMA_ORG_URL_REGEX.test(s)\<close>: the start positions are tried from left to right.\<close>

fun SCHEMA_ORG_URL_REGEX_test :: "string \<Rightarrow> bool" where
  "SCHEMA_ORG_URL_REGEX_test [] = False"
| "SCHEMA_ORG_URL_REGEX_test (c # cs) =
     (case SCHEMA_ORG_URL_REGEX_at (c # cs) of
        Some rest \<Rightarrow> True
      | None \<Rightarrow> SCHEMA_ORG_URL_REGEX_test cs)"

text \<open>
  \<^verbatim>\<open>function cleanName(uri) { return uri.replace(SCHEMA_ORG_URL_REGEX, ''); }\<close>

  \<open>replace\<close> with a pattern that has no \<open>g\<close> flag removes the leftmost match only.
\<close>

fun cleanName :: "string \<Rightarrow> string" where
  "cleanName [] = []"
| "cleanName (c # cs) =
     (case SCHEMA_ORG_URL_REGEX_at (c # cs) of
        Some rest \<Rightarrow> rest
      | None \<Rightarrow> c # cleanName cs)"

subsection \<open>The type graph\<close>

text \<open>
  \<^verbatim>\<open>schemaStructure\<close> is loaded from \<open>assets/schema-tree.json\<close>, which is data and not part
  of the code: the graph is a parameter \<open>g\<close> of every function that reads it. Types and
  properties have the same shape, a name and a list of type names.
\<close>

record node =
  name :: string
  parent :: "string list"

record schema =
  types :: "node list"
  properties :: "node list"

subsection \<open>Outcomes of a call\<close>

text \<open>
  A call returns a value (\<open>Some (Inr v)\<close>), throws (\<open>Some (Inl e)\<close>), or does not come back
  within the given recursion depth (\<open>None\<close>). \<open>MissingType\<close> is the
  \<^verbatim>\<open>Unable to get props for missing type\<close> error; \<open>TypeError\<close> is what JavaScript raises
  when \<open>replace\<close> is called on a value that is not a string, or \<open>Object.keys\<close> on \<open>null\<close>.
\<close>

datatype error = MissingType string | TypeError

type_synonym 'a outcome = "(error + 'a) option"

subsection \<open>\<open>findType\<close> and \<open>getPropsForType\<close>\<close>

definition findType :: "schema \<Rightarrow> string \<Rightarrow> node option" where
  "findType g type =
     (let cleanType = cleanName type
      in find (\<lambda>typeObj. name typeObj = cleanType) (types g))"

text \<open>
  \<^verbatim>\<open>parentTypes.reduce((allProps, type) => allProps.concat(getPropsForType(type)), props)\<close>,
  with \<open>f\<close> the recursive call.
\<close>

fun reduce_parents ::
  "(string \<Rightarrow> string list outcome) \<Rightarrow> string list \<Rightarrow> string list \<Rightarrow> string list outcome" where
  "reduce_parents f [] allProps = Some (Inr allProps)"
| "reduce_parents f (type # rest) allProps =
     (case f type of
        None \<Rightarrow> None
      | Some (Inl e) \<Rightarrow> Some (Inl e)
      | Some (Inr ps) \<Rightarrow> reduce_parents f rest (allProps @ ps))"

text \<open>
  The source recurses on the parents with no bound and no record of the types it has seen.
  The first argument bounds the depth of the recursion; \<open>None\<close> says that the call needs a
  deeper recursion than that.
\<close>

primrec getPropsForType :: "nat \<Rightarrow> schema \<Rightarrow> string \<Rightarrow> string list outcome" where
  "getPropsForType 0 g type = None"
| "getPropsForType (Suc depth) g type =
     (let cleanType = cleanName type;
          props = map name (filter (\<lambda>prop. cleanType \<in> set (parent prop)) (properties g))
      in case findType g type of
           None \<Rightarrow> Some (Inl (MissingType type))
         | Some foundType \<Rightarrow> reduce_parents (getPropsForType depth g) (parent foundType) props)"

text \<open>The parent links the recursion follows: from the clean name of a type that
  \<open>findType\<close> finds to the clean name of each of its parents.\<close>

definition parent_links :: "schema \<Rightarrow> (string \<times> string) set" where
  "parent_links g =
     {(cleanName p, name t) | p t. find (\<lambda>typeObj. name typeObj = name t) (types g) = Some t
                                  \<and> p \<in> set (parent t)}"

text \<open>The invariant of the type graph: every name in a parent list of a type is the
  name of a type.\<close>

definition parents_resolve :: "schema \<Rightarrow> bool" where
  "parents_resolve g =
     list_all (\<lambda>t. list_all (\<lambda>p. findType g p \<noteq> None) (parent t)) (types g)"

subsection \<open>JSON values\<close>

datatype json =
    JNull
  | JBool bool
  | JNum int
  | JStr string
  | JArr "json list"
  | JObj "(string \<times> json) list"

text \<open>Decimal numerals, the keys of an array.\<close>

fun decimal :: "nat \<Rightarrow> string" where
  "decimal n =
     (if n < 10 then [char_of (48 + n)]
      else decimal (n div 10) @ [char_of (48 + n mod 10)])"

declare decimal.simps [simp del]

text \<open>\<^verbatim>\<open>Object.keys(obj)\<close>; the fields of an object are listed in the order JavaScript
  enumerates them.\<close>

fun object_keys :: "json \<Rightarrow> error + string list" where
  "object_keys JNull = Inl TypeError"
| "object_keys (JBool b) = Inr []"
| "object_keys (JNum i) = Inr []"
| "object_keys (JStr s) = Inr (map decimal [0..<length s])"
| "object_keys (JArr xs) = Inr (map decimal [0..<length xs])"
| "object_keys (JObj kvs) = Inr (map fst kvs)"

subsection \<open>\<open>validateObjectKeys\<close>\<close>

text \<open>
  \<^verbatim>\<open>const unknownTypes = types.filter(t => !findType(t));\<close>
  \<open>findType\<close> calls \<open>cleanName\<close>, which calls \<open>replace\<close> on its argument: an element that is
  not a string raises a \<open>TypeError\<close>.
\<close>

fun unknownTypes_of :: "schema \<Rightarrow> json list \<Rightarrow> error + string list" where
  "unknownTypes_of g [] = Inr []"
| "unknownTypes_of g (JStr t # rest) =
     (case unknownTypes_of g rest of
        Inl e \<Rightarrow> Inl e
      | Inr us \<Rightarrow> Inr (if findType g t = None then t # us else us))"
| "unknownTypes_of g (_ # rest) = Inl TypeError"

text \<open>
  \<^verbatim>\<open>types.forEach(type => {
    const knownProps = getPropsForType(type);
    knownProps.forEach(key => safelist.push(key));
  });\<close>
\<close>

fun build_safelist :: "nat \<Rightarrow> schema \<Rightarrow> json list \<Rightarrow> string list \<Rightarrow> string list outcome" where
  "build_safelist depth g [] safelist = Some (Inr safelist)"
| "build_safelist depth g (JStr type # rest) safelist =
     (case getPropsForType depth g type of
        None \<Rightarrow> None
      | Some (Inl e) \<Rightarrow> Some (Inl e)
      | Some (Inr knownProps) \<Rightarrow> build_safelist depth g rest (safelist @ knownProps))"
| "build_safelist depth g (_ # rest) safelist = Some (Inl TypeError)"

text \<open>\<^verbatim>\<open>key.indexOf('@') === 0\<close>\<close>

definition is_keyword :: "string \<Rightarrow> bool" where
  "is_keyword key = (case key of [] \<Rightarrow> False | c # _ \<Rightarrow> c = CHR ''@'')"

text \<open>\<^verbatim>\<open>key.replace(/-(input|output)$/, '')\<close>\<close>

definition strip_constraint :: "string \<Rightarrow> string" where
  "strip_constraint key =
     (if suffix ''-input'' key then take (length key - 6) key
      else if suffix ''-output'' key then take (length key - 7) key
      else key)"

definition unrecognized_type :: "string \<Rightarrow> string" where
  "unrecognized_type type = ''Unrecognized schema.org type '' @ type"

definition unexpected_property :: "string \<Rightarrow> string" where
  \<open>unexpected_property key = ''Unexpected property "'' @ key @ ''"''\<close>

definition validateObjectKeys ::
  "nat \<Rightarrow> schema \<Rightarrow> json \<Rightarrow> string list \<Rightarrow> string list outcome" where
  "validateObjectKeys depth g typeOrTypes keys =
     (case (case typeOrTypes of
              JStr t \<Rightarrow> Some [JStr t]
            | JArr ts \<Rightarrow> Some ts
            | _ \<Rightarrow> None) of
        None \<Rightarrow> Some (Inr [''Unknown value type''])
      | Some declared \<Rightarrow>
          (case unknownTypes_of g declared of
             Inl e \<Rightarrow> Some (Inl e)
           | Inr unknownTypes \<Rightarrow>
               if unknownTypes \<noteq> [] then
                 Some (Inr (map unrecognized_type
                              (filter SCHEMA_ORG_URL_REGEX_test unknownTypes)))
               else
                 (case build_safelist depth g declared [] of
                    None \<Rightarrow> None
                  | Some (Inl e) \<Rightarrow> Some (Inl e)
                  | Some (Inr safelist) \<Rightarrow>
                      (let cleanKeys = map cleanName (filter (\<lambda>key. \<not> is_keyword key) keys)
                       in Some (Inr (map unexpected_property
                                       (filter (\<lambda>key. key \<notin> set safelist)
                                          (map strip_constraint cleanKeys))))))))"

subsection \<open>\<open>validateSchemaOrg\<close>\<close>

record ValidationError =
  path :: string
  message :: string

text \<open>One call of the visitor: the key, its value, the path to the key and the enclosing
  object.\<close>

type_synonym visit = "string \<times> json \<times> string list \<times> json"

definition TYPE_KEYWORD :: string where
  "TYPE_KEYWORD = ''@type''"

text \<open>\<^verbatim>\<open>segments.join('/')\<close>\<close>

fun join :: "string list \<Rightarrow> string" where
  "join [] = []"
| "join [s] = s"
| "join (s # t # rest) = s @ ''/'' @ join (t # rest)"

text \<open>\<^verbatim>\<open>'/' + path.slice(0, -1).map(cleanName).join('/')\<close>\<close>

definition error_path :: "string list \<Rightarrow> string" where
  "error_path segs = ''/'' @ join (map cleanName (butlast segs))"

text \<open>The visitor passed to \<open>walkObject\<close>; \<open>errors\<close> is the array it pushes to.\<close>

definition callback ::
  "nat \<Rightarrow> schema \<Rightarrow> visit \<Rightarrow> ValidationError list \<Rightarrow> ValidationError list outcome" where
  "callback depth g v errors =
     (case v of (nm, val, segs, obj) \<Rightarrow>
        if nm = TYPE_KEYWORD then
          (case object_keys obj of
             Inl e \<Rightarrow> Some (Inl e)
           | Inr keys \<Rightarrow>
               (case validateObjectKeys depth g val keys of
                  None \<Rightarrow> None
                | Some (Inl e) \<Rightarrow> Some (Inl e)
                | Some (Inr keyErrorMessages) \<Rightarrow>
                    Some (Inr (errors @
                      map (\<lambda>msg. \<lparr>path = error_path segs, message = msg\<rparr>) keyErrorMessages))))
        else Some (Inr errors))"

text \<open>The visits of a walk, in order; a throw ends the walk.\<close>

fun visit_all ::
  "nat \<Rightarrow> schema \<Rightarrow> visit list \<Rightarrow> ValidationError list \<Rightarrow> ValidationError list outcome" where
  "visit_all depth g [] errors = Some (Inr errors)"
| "visit_all depth g (v # vs) errors =
     (case callback depth g v errors of
        None \<Rightarrow> None
      | Some (Inl e) \<Rightarrow> Some (Inl e)
      | Some (Inr errors') \<Rightarrow> visit_all depth g vs errors')"

text \<open>
  \<open>helpers/walk-object.js\<close> is not part of the code at hand. All the visitor lets the
  walker observe is a throw, so a walker is the list of visits it makes on a value, and
  \<open>validateSchemaOrg\<close> takes the walker as the parameter \<open>walk\<close>.
\<close>

definition validateSchemaOrg ::
  "(json \<Rightarrow> visit list) \<Rightarrow> nat \<Rightarrow> schema \<Rightarrow> json \<Rightarrow> ValidationError list outcome" where
  "validateSchemaOrg walk depth g expandedObj =
     (if expandedObj = JNull then Some (Inr [])
      else
        (let expandedObj' = (case expandedObj of JArr [x] \<Rightarrow> x | _ \<Rightarrow> expandedObj)
         in visit_all depth g (walk expandedObj') []))"

text \<open>The value the walker is started on.\<close>

definition unwrapped :: "json \<Rightarrow> json" where
  "unwrapped expandedObj = (case expandedObj of JArr [x] \<Rightarrow> x | _ \<Rightarrow> expandedObj)"

text \<open>
  Modelled from the spec: the tree walker \<open>walkObject\<close> of \<open>helpers/walk-object.js\<close>, which
  is missing. It "invokes the visitor once per key/value pair with (key, value, pathSoFar,
  enclosingObject), visiting depth-first in a deterministic (e.g., insertion) order", and
  the path of a visit ends with the visited key. The key/value pairs of an array are its
  indices and elements; a value that is neither an object nor an array has none.
\<close>

fun walkObject :: "json \<Rightarrow> string list \<Rightarrow> visit list"
  and walk_fields :: "json \<Rightarrow> string list \<Rightarrow> (string \<times> json) list \<Rightarrow> visit list"
  and walk_items :: "json \<Rightarrow> string list \<Rightarrow> nat \<Rightarrow> json list \<Rightarrow> visit list" where
  "walkObject (JObj kvs) segs = walk_fields (JObj kvs) segs kvs"
| "walkObject (JArr xs) segs = walk_items (JArr xs) segs 0 xs"
| "walkObject JNull segs = []"
| "walkObject (JBool b) segs = []"
| "walkObject (JNum i) segs = []"
| "walkObject (JStr s) segs = []"
| "walk_fields obj segs [] = []"
| "walk_fields obj segs ((k, v) # rest) =
     (k, v, segs @ [k], obj) # walkObject v (segs @ [k]) @ walk_fields obj segs rest"
| "walk_items obj segs i [] = []"
| "walk_items obj segs i (x # rest) =
     (decimal i, x, segs @ [decimal i], obj) # walkObject x (segs @ [decimal i])
       @ walk_items obj segs (Suc i) rest"

subsection \<open>Auxiliary notions for the statements\<close>

text \<open>The array \<open>types\<close> of \<open>validateObjectKeys\<close>, when \<open>typeOrTypes\<close> is a string or an
  array.\<close>

definition declared_types :: "json \<Rightarrow> json list option" where
  "declared_types typeOrTypes =
     (case typeOrTypes of JStr t \<Rightarrow> Some [JStr t] | JArr ts \<Rightarrow> Some ts | _ \<Rightarrow> None)"


text \<open>
  A visit of the type keyword as the input contract describes it: the enclosing value is
  not \<open>null\<close>, and a value that is an array holds strings only.
\<close>

fun is_string :: "json \<Rightarrow> bool" where
  "is_string (JStr s) = True"
| "is_string _ = False"

definition well_typed_visit :: "visit \<Rightarrow> bool" where
  "well_typed_visit v =
     (case v of (nm, val, segs, obj) \<Rightarrow>
        nm = TYPE_KEYWORD \<longrightarrow>
          obj \<noteq> JNull \<and> (case val of JArr ts \<Rightarrow> list_all is_string ts | _ \<Rightarrow> True))"

text \<open>The messages \<open>validateObjectKeys\<close> returns at a visit (none when it does not
  return).\<close>

definition keyErrorMessages_of :: "nat \<Rightarrow> schema \<Rightarrow> visit \<Rightarrow> string list" where
  "keyErrorMessages_of depth g v =
     (case v of (nm, val, segs, obj) \<Rightarrow>
        (case object_keys obj of
           Inl e \<Rightarrow> []
         | Inr keys \<Rightarrow>
             (case validateObjectKeys depth g val keys of
                Some (Inr keyErrorMessages) \<Rightarrow> keyErrorMessages
              | _ \<Rightarrow> [])))"


subsection \<open>Example graphs and documents\<close>

definition example_graph :: schema where
  "example_graph =
     \<lparr>types = [\<lparr>name = ''Thing'', parent = []\<rparr>,
               \<lparr>name = ''Person'', parent = [''Thing'']\<rparr>,
               \<lparr>name = ''Organization'', parent = [''Thing'']\<rparr>],
      properties = [\<lparr>name = ''name'', parent = [''Thing'']\<rparr>,
                    \<lparr>name = ''birthDate'', parent = [''Person'']\<rparr>,
                    \<lparr>name = ''employee'', parent = [''Organization'']\<rparr>]\<rparr>"

text \<open>A graph whose only type is its own parent.\<close>

definition cyclic_graph :: schema where
  "cyclic_graph = \<lparr>types = [\<lparr>name = ''A'', parent = [''A'']\<rparr>], properties = []\<rparr>"

definition nested_document :: json where
  "nested_document =
     JObj [(''http://schema.org/parentKey'',
            JObj [(''http://schema.org/childKey'',
                   JObj [(''@type'', JStr ''Person''),
                         (''http://schema.org/bogus'', JStr ''x'')])])]"

section \<open>Properties\<close>

subsection \<open>Declared types given as strings\<close>

lemma unknownTypes_of_strings:
  "unknownTypes_of g (map JStr ts) = Inr (filter (\<lambda>t. findType g t = None) ts)"
  by (induction ts) simp_all

text \<open>
  C10: when \<open>typeOrTypes\<close> is the empty array, no type error is reported and the allow-list
  is empty: \<open>validateObjectKeys\<close> returns one \<open>Unexpected property "key"\<close> message for every
  key that does not start with \<open>@\<close>, in the order of the keys, whatever the graph is; the
  key in the message is cleaned of the schema.org URL and of its input/output marker. The
  result is empty only when every key starts with \<open>@\<close> (or there is no key).
\<close>

theorem validateObjectKeys_empty_types:
  \<open>validateObjectKeys depth g (JArr []) keys =
     Some (Inr (map (\<lambda>key. ''Unexpected property "'' @ strip_constraint (cleanName key) @ ''"'')
                  (filter (\<lambda>key. \<not> is_keyword key) keys)))
   \<and> (\<exists>msgs. validateObjectKeys depth g (JArr []) keys = Some (Inr msgs)
          \<and> length msgs = length (filter (\<lambda>key. \<not> is_keyword key) keys)
          \<and> list_all (prefix ''Unexpected property "'') msgs)
   \<and> (validateObjectKeys depth g (JArr []) keys = Some (Inr [])
        \<longleftrightarrow> filter (\<lambda>key. \<not> is_keyword key) keys = [])\<close>
  by (simp add: validateObjectKeys_def unexpected_property_def comp_def list_all_iff)

theorem validateObjectKeys_empty_types_witness:
  \<open>validateObjectKeys 0 example_graph (JArr [])
      [''@id'', ''http://schema.org/name'', ''@type'', ''bogus-input'']
     = Some (Inr [''Unexpected property "name"'', ''Unexpected property "bogus"''])
   \<and> validateObjectKeys 0 example_graph (JArr []) [''@id'', ''@type''] = Some (Inr [])\<close>
  using validateObjectKeys_empty_types
      [of 0 example_graph "[''@id'', ''http://schema.org/name'', ''@type'', ''bogus-input'']"]
    validateObjectKeys_empty_types [of 0 example_graph "[''@id'', ''@type'']"]
  by (simp add: is_keyword_def SCHEMA_ORG_URL_REGEX_at_def strip_constraint_def suffix_def)

subsection \<open>The pattern and \<open>cleanName\<close>\<close>

lemma strip_literal_iff: "strip_literal p s = Some r \<longleftrightarrow> s = p @ r"
  by (induction p s rule: strip_literal.induct) auto

lemma SCHEMA_ORG_URL_REGEX_at_iff:
  "SCHEMA_ORG_URL_REGEX_at s = Some r \<longleftrightarrow>
     s = ''http://schema.org/'' @ r \<or> s = ''https://schema.org/'' @ r"
proof -
  have n: "strip_literal p s = None \<longleftrightarrow> (\<forall>r. s \<noteq> p @ r)" for p s
    using strip_literal_iff [of p s] by (cases "strip_literal p s") auto
  show ?thesis
    unfolding SCHEMA_ORG_URL_REGEX_at_def
    by (auto simp: strip_literal_iff n split: option.splits)
qed

lemma SCHEMA_ORG_URL_REGEX_at_shorter:
  "SCHEMA_ORG_URL_REGEX_at s = Some r \<Longrightarrow> length r < length s"
  by (auto simp: SCHEMA_ORG_URL_REGEX_at_iff)

lemma SCHEMA_ORG_URL_REGEX_test_iff:
  "SCHEMA_ORG_URL_REGEX_test s \<longleftrightarrow>
     (\<exists>a b. s = a @ ''http://schema.org/'' @ b \<or> s = a @ ''https://schema.org/'' @ b)"
proof (induction s)
  case Nil
  show ?case by simp
next
  case (Cons c cs)
  show ?case
  proof (cases "SCHEMA_ORG_URL_REGEX_at (c # cs)")
    case (Some r)
    then have "c # cs = [] @ ''http://schema.org/'' @ r \<or> c # cs = [] @ ''https://schema.org/'' @ r"
      by (simp add: SCHEMA_ORG_URL_REGEX_at_iff)
    then have "\<exists>a b. c # cs = a @ ''http://schema.org/'' @ b \<or> c # cs = a @ ''https://schema.org/'' @ b"
      by blast
    with Some show ?thesis by simp
  next
    case None
    have "(\<exists>a b. c # cs = a @ ''http://schema.org/'' @ b \<or> c # cs = a @ ''https://schema.org/'' @ b)
      \<longleftrightarrow> (\<exists>a b. cs = a @ ''http://schema.org/'' @ b \<or> cs = a @ ''https://schema.org/'' @ b)"
      (is "?L \<longleftrightarrow> ?R")
    proof
      assume ?L
      then obtain a b where ab: "c # cs = a @ ''http://schema.org/'' @ b \<or> c # cs = a @ ''https://schema.org/'' @ b"
        by blast
      show ?R
      proof (cases a)
        case Nil
        with ab have "SCHEMA_ORG_URL_REGEX_at (c # cs) = Some b"
          by (simp only: SCHEMA_ORG_URL_REGEX_at_iff append_Nil)
        with None show ?thesis by simp
      next
        case (Cons x a')
        with ab have "cs = a' @ ''http://schema.org/'' @ b \<or> cs = a' @ ''https://schema.org/'' @ b"
          by auto
        then show ?thesis by blast
      qed
    next
      assume ?R
      then obtain a b where "cs = a @ ''http://schema.org/'' @ b \<or> cs = a @ ''https://schema.org/'' @ b"
        by blast
      then have "c # cs = (c # a) @ ''http://schema.org/'' @ b \<or> c # cs = (c # a) @ ''https://schema.org/'' @ b"
        by simp
      then show ?L by blast
    qed
    with None Cons.IH show ?thesis by simp
  qed
qed

lemma cleanName_unchanged: "\<not> SCHEMA_ORG_URL_REGEX_test s \<Longrightarrow> cleanName s = s"
  by (induction s) (auto split: option.splits)

lemma cleanName_shorter: "SCHEMA_ORG_URL_REGEX_test s \<Longrightarrow> length (cleanName s) < length s"
  by (induction s) (auto split: option.splits dest: SCHEMA_ORG_URL_REGEX_at_shorter)

lemma cleanName_fixed_iff: "cleanName s = s \<longleftrightarrow> \<not> SCHEMA_ORG_URL_REGEX_test s"
  using cleanName_unchanged [of s] cleanName_shorter [of s] by auto

lemma cleanName_prefix:
  "cleanName (''http://schema.org/'' @ r) = r" "cleanName (''https://schema.org/'' @ r) = r"
  by (simp_all add: SCHEMA_ORG_URL_REGEX_at_def)

lemma cleanName_leftmost:
  assumes "u = ''http://schema.org/'' \<or> u = ''https://schema.org/''"
    and "\<forall>i < length a. SCHEMA_ORG_URL_REGEX_at (drop i (a @ u @ b)) = None"
  shows "cleanName (a @ u @ b) = a @ b"
  using assms(2)
proof (induction a)
  case Nil
  from assms(1) show ?case by (auto simp: SCHEMA_ORG_URL_REGEX_at_def)
next
  case (Cons c a)
  from Cons.prems have "SCHEMA_ORG_URL_REGEX_at (drop 0 ((c # a) @ u @ b)) = None"
    by blast
  then have h: "SCHEMA_ORG_URL_REGEX_at (c # a @ u @ b) = None" by simp
  have "\<forall>i < length a. SCHEMA_ORG_URL_REGEX_at (drop i (a @ u @ b)) = None"
  proof (intro allI impI)
    fix i assume "i < length a"
    then have "Suc i < length (c # a)" by simp
    with Cons.prems have "SCHEMA_ORG_URL_REGEX_at (drop (Suc i) ((c # a) @ u @ b)) = None"
      by blast
    then show "SCHEMA_ORG_URL_REGEX_at (drop i (a @ u @ b)) = None" by simp
  qed
  with Cons.IH have "cleanName (a @ u @ b) = a @ b" by blast
  with h show ?case by simp
qed

text \<open>
  C8, as amended: \<open>cleanName\<close> removes the leftmost occurrence of \<open>http://schema.org/\<close> or
  \<open>https://schema.org/\<close>, wherever it is in the string. A leading prefix is removed; the
  string is unchanged exactly when it contains no occurrence at all; and an occurrence
  that is not at the start is removed as well, when no match starts before it.
  \<open>cleanName\<close> is a total function.
\<close>

theorem cleanName_removes_leftmost_url:
  "cleanName (''http://schema.org/'' @ r) = r
   \<and> cleanName (''https://schema.org/'' @ r) = r
   \<and> (cleanName uri = uri \<longleftrightarrow>
        \<not> (\<exists>a b. uri = a @ ''http://schema.org/'' @ b \<or> uri = a @ ''https://schema.org/'' @ b))
   \<and> ((u = ''http://schema.org/'' \<or> u = ''https://schema.org/'')
        \<and> (\<forall>i < length a. SCHEMA_ORG_URL_REGEX_at (drop i (a @ u @ b)) = None)
        \<longrightarrow> cleanName (a @ u @ b) = a @ b)"
  using cleanName_prefix [of r] cleanName_fixed_iff [of uri] cleanName_leftmost [of u a b]
  by (simp only: SCHEMA_ORG_URL_REGEX_test_iff) blast

theorem cleanName_removes_leftmost_url_witness:
  "cleanName ''http://schema.org/Person'' = ''Person''
   \<and> cleanName ''https://schema.org/Person'' = ''Person''
   \<and> cleanName ''Person'' = ''Person''
   \<and> cleanName ''a/http://schema.org/Person'' = ''a/Person''"
proof -
  have "\<forall>i < length ''a/''. SCHEMA_ORG_URL_REGEX_at (drop i (''a/'' @ ''http://schema.org/'' @ ''Person'')) = None"
    by (auto simp: less_Suc_eq SCHEMA_ORG_URL_REGEX_at_def)
  with cleanName_removes_leftmost_url [of "''Person''" "''Person''" "''http://schema.org/''" "''a/''" "''Person''"]
  show ?thesis
    by (simp add: SCHEMA_ORG_URL_REGEX_at_def)
qed

text \<open>C8 as stated fails: a string that does not start with the URL but contains it is
  changed.\<close>

theorem cleanName_inner_url_counterexample:
  "\<not> prefix ''http://schema.org/'' ''xhttp://schema.org/Person''
   \<and> \<not> prefix ''https://schema.org/'' ''xhttp://schema.org/Person''
   \<and> cleanName ''xhttp://schema.org/Person'' = ''xPerson''
   \<and> cleanName ''xhttp://schema.org/Person'' \<noteq> ''xhttp://schema.org/Person''"
  by (simp add: SCHEMA_ORG_URL_REGEX_at_def)

text \<open>C3 as stated fails: removing the first of two URLs leaves a string that
  \<open>cleanName\<close> changes again.\<close>

theorem cleanName_not_idempotent_counterexample:
  "cleanName (cleanName ''http://schema.org/http://schema.org/x'')
     \<noteq> cleanName ''http://schema.org/http://schema.org/x''"
  by (simp add: SCHEMA_ORG_URL_REGEX_at_def)

text \<open>
  C3, as amended: \<open>cleanName (cleanName x) = cleanName x\<close> holds exactly when
  \<open>cleanName x\<close> contains no schema.org URL. That is the case when \<open>x\<close> contains none,
  and when \<open>x\<close> is a schema.org URL followed by a name that contains none.
\<close>

theorem cleanName_idempotent_iff:
  "(cleanName (cleanName x) = cleanName x \<longleftrightarrow> \<not> SCHEMA_ORG_URL_REGEX_test (cleanName x))
   \<and> (\<not> SCHEMA_ORG_URL_REGEX_test x \<longrightarrow> cleanName (cleanName x) = cleanName x)
   \<and> (\<not> SCHEMA_ORG_URL_REGEX_test r \<longrightarrow>
        cleanName (cleanName (''http://schema.org/'' @ r)) = cleanName (''http://schema.org/'' @ r)
      \<and> cleanName (cleanName (''https://schema.org/'' @ r)) = cleanName (''https://schema.org/'' @ r))"
proof (intro conjI impI)
  show "cleanName (cleanName x) = cleanName x \<longleftrightarrow> \<not> SCHEMA_ORG_URL_REGEX_test (cleanName x)"
    by (rule cleanName_fixed_iff)
  show "cleanName (cleanName x) = cleanName x" if "\<not> SCHEMA_ORG_URL_REGEX_test x"
    using that by (simp add: cleanName_unchanged)
  show "cleanName (cleanName (''http://schema.org/'' @ r)) = cleanName (''http://schema.org/'' @ r)"
    if "\<not> SCHEMA_ORG_URL_REGEX_test r"
    using cleanName_unchanged [OF that] by (simp only: cleanName_prefix)
  show "cleanName (cleanName (''https://schema.org/'' @ r)) = cleanName (''https://schema.org/'' @ r)"
    if "\<not> SCHEMA_ORG_URL_REGEX_test r"
    using cleanName_unchanged [OF that] by (simp only: cleanName_prefix)
qed

theorem cleanName_idempotent_iff_witness:
  "\<not> SCHEMA_ORG_URL_REGEX_test ''Person''
   \<and> cleanName (cleanName ''http://schema.org/Person'') = cleanName ''http://schema.org/Person''
   \<and> cleanName (cleanName ''Person'') = cleanName ''Person''"
proof -
  have "\<not> SCHEMA_ORG_URL_REGEX_test ''Person''"
    by (simp add: SCHEMA_ORG_URL_REGEX_at_def)
  with cleanName_idempotent_iff [of "''Person''" "''Person''"] show ?thesis
    by simp
qed

subsection \<open>The example graph\<close>

lemma example_findType:
  "findType example_graph ''Person'' = Some \<lparr>name = ''Person'', parent = [''Thing'']\<rparr>"
  "findType example_graph ''Thing'' = Some \<lparr>name = ''Thing'', parent = []\<rparr>"
  "findType example_graph ''https://schema.org/NotAType'' = None"
  "findType example_graph ''Foreign'' = None"
  by (simp_all add: findType_def example_graph_def SCHEMA_ORG_URL_REGEX_at_def)

lemma example_props_Person:
  "getPropsForType 2 example_graph ''Person'' = Some (Inr [''birthDate'', ''name''])"
  by (simp add: numeral_2_eq_2 findType_def example_graph_def SCHEMA_ORG_URL_REGEX_at_def)

subsection \<open>\<open>getPropsForType\<close>\<close>

lemma reduce_parents_mono:
  assumes "\<And>t r. t \<in> set ps \<Longrightarrow> f t = Some r \<Longrightarrow> f' t = Some r"
    and "reduce_parents f ps acc = Some r"
  shows "reduce_parents f' ps acc = Some r"
  using assms
proof (induction ps arbitrary: acc)
  case Nil
  then show ?case by simp
next
  case (Cons p ps)
  from Cons.prems(2) obtain x where fx: "f p = Some x"
    by (cases "f p") auto
  with Cons.prems(1) have f'x: "f' p = Some x" by simp
  show ?case
  proof (cases x)
    case (Inl e)
    with fx f'x Cons.prems(2) show ?thesis by auto
  next
    case (Inr pps)
    with fx Cons.prems(2) have "reduce_parents f ps (acc @ pps) = Some r" by simp
    with Cons.IH Cons.prems(1) have "reduce_parents f' ps (acc @ pps) = Some r" by simp
    with Inr f'x show ?thesis by simp
  qed
qed

lemma getPropsForType_Suc:
  "getPropsForType depth g type = Some r \<Longrightarrow> getPropsForType (Suc depth) g type = Some r"
proof (induction depth arbitrary: type r)
  case 0
  then show ?case by simp
next
  case (Suc depth)
  show ?case
  proof (cases "findType g type")
    case None
    with Suc.prems show ?thesis by simp
  next
    case (Some t)
    with Suc.prems have
      "reduce_parents (getPropsForType depth g) (parent t)
         (map name (filter (\<lambda>prop. cleanName type \<in> set (parent prop)) (properties g))) = Some r"
      by simp
    then have
      "reduce_parents (getPropsForType (Suc depth) g) (parent t)
         (map name (filter (\<lambda>prop. cleanName type \<in> set (parent prop)) (properties g))) = Some r"
      by (rule reduce_parents_mono [rotated]) (rule Suc.IH)
    with Some show ?thesis by (simp del: getPropsForType.simps add: getPropsForType.simps(2) [of "Suc depth"])
  qed
qed

lemma getPropsForType_deeper:
  "getPropsForType depth g type = Some r \<Longrightarrow> getPropsForType (depth + k) g type = Some r"
  by (induction k) (simp_all add: getPropsForType_Suc del: getPropsForType.simps)

lemma getPropsForType_le:
  "getPropsForType depth g type = Some r \<Longrightarrow> depth \<le> depth' \<Longrightarrow>
     getPropsForType depth' g type = Some r"
  using getPropsForType_deeper [of depth g type r "depth' - depth"] by simp

lemma getPropsForType_deterministic:
  assumes "getPropsForType m g type = Some r" and "getPropsForType n g type = Some r'"
  shows "r = r'"
proof -
  have "getPropsForType (max m n) g type = Some r"
    using assms(1) by (rule getPropsForType_le) simp
  moreover have "getPropsForType (max m n) g type = Some r'"
    using assms(2) by (rule getPropsForType_le) simp
  ultimately show ?thesis by simp
qed

lemma reduce_parents_value:
  assumes "reduce_parents f ps acc = Some (Inr r)"
  shows "set acc \<subseteq> set r \<and> (\<forall>p \<in> set ps. \<exists>pps. f p = Some (Inr pps) \<and> set pps \<subseteq> set r)"
  using assms
proof (induction ps arbitrary: acc)
  case Nil
  then show ?case by simp
next
  case (Cons p ps)
  from Cons.prems obtain pps where p: "f p = Some (Inr pps)"
    and rest: "reduce_parents f ps (acc @ pps) = Some (Inr r)"
    by (auto split: option.splits sum.splits)
  from Cons.IH [OF rest] p show ?case by auto
qed

lemma reduce_parents_returns:
  assumes "\<forall>p \<in> set ps. \<exists>pps. f p = Some (Inr pps)"
  shows "\<exists>r. reduce_parents f ps acc = Some (Inr r)"
  using assms
proof (induction ps arbitrary: acc)
  case Nil
  then show ?case by simp
next
  case (Cons p ps)
  then obtain pps where p: "f p = Some (Inr pps)" by auto
  from Cons.IH [of "acc @ pps"] Cons.prems obtain r where
    "reduce_parents f ps (acc @ pps) = Some (Inr r)" by auto
  with p show ?case by simp
qed

lemma reduce_parents_terminates:
  assumes "\<forall>p \<in> set ps. f p \<noteq> None"
  shows "reduce_parents f ps acc \<noteq> None"
  using assms
  by (induction ps arbitrary: acc) (auto split: option.splits sum.splits)

lemma reduce_parents_no_throw:
  assumes "\<forall>p \<in> set ps. \<forall>e. f p \<noteq> Some (Inl e)"
  shows "reduce_parents f ps acc \<noteq> Some (Inl e)"
  using assms
  by (induction ps arbitrary: acc) (auto split: option.splits sum.splits)

text \<open>A bound that serves finitely many calls.\<close>

lemma common_depth:
  assumes "\<forall>p \<in> set ps. \<exists>n::nat. Q n p" and "\<And>m n p. Q m p \<Longrightarrow> m \<le> n \<Longrightarrow> Q n p"
  shows "\<exists>n. \<forall>p \<in> set ps. Q n p"
  using assms(1)
proof (induction ps)
  case Nil
  then show ?case by simp
next
  case (Cons p ps)
  then obtain n where n: "\<forall>q \<in> set ps. Q n q" by auto
  from Cons.prems obtain m where m: "Q m p" by auto
  have "Q (max m n) p"
    by (rule assms(2) [OF m]) simp
  moreover have "Q (max m n) q" if "q \<in> set ps" for q
  proof (rule assms(2))
    from n that show "Q n q" by simp
    show "n \<le> max m n" by simp
  qed
  ultimately have "\<forall>q \<in> set (p # ps). Q (max m n) q" by simp
  then show ?case ..
qed

lemma getPropsForType_parents:
  assumes "findType g T = Some t" and "getPropsForType n g T = Some (Inr props)"
    and "p \<in> set (parent t)"
  shows "\<exists>m pps. getPropsForType m g p = Some (Inr pps) \<and> set pps \<subseteq> set props"
proof (cases n)
  case 0
  with assms(2) show ?thesis by simp
next
  case (Suc k)
  with assms(1,2) have
    "reduce_parents (getPropsForType k g) (parent t)
       (map name (filter (\<lambda>prop. cleanName T \<in> set (parent prop)) (properties g))) = Some (Inr props)"
    by simp
  from reduce_parents_value [OF this] assms(3) show ?thesis by blast
qed

lemma getPropsForType_returns_from_parents:
  assumes "findType g T = Some t"
    and "\<forall>p \<in> set (parent t). \<exists>m pps. getPropsForType m g p = Some (Inr pps)"
  shows "\<exists>n props. getPropsForType n g T = Some (Inr props)"
proof -
  have "\<exists>m. \<forall>p \<in> set (parent t). \<exists>pps. getPropsForType m g p = Some (Inr pps)"
    using assms(2)
    by (rule common_depth) (blast intro: getPropsForType_le)
  then obtain m where "\<forall>p \<in> set (parent t). \<exists>pps. getPropsForType m g p = Some (Inr pps)" ..
  from reduce_parents_returns [OF this] assms(1)
  have "\<exists>props. getPropsForType (Suc m) g T = Some (Inr props)" by simp
  then show ?thesis by blast
qed

text \<open>
  C6: for a type \<open>T\<close> that is in the graph, \<open>getPropsForType T\<close> returns a list exactly when
  \<open>getPropsForType\<close> returns a list for each direct parent of \<open>T\<close>, and whenever both
  return, every property name returned for the parent is among those returned for \<open>T\<close>.
\<close>

theorem getPropsForType_inherits:
  assumes "findType g T = Some t"
  shows "((\<exists>n props. getPropsForType n g T = Some (Inr props)) \<longleftrightarrow>
          (\<forall>p \<in> set (parent t). \<exists>m pps. getPropsForType m g p = Some (Inr pps)))
       \<and> (\<forall>n props p m pps.
            getPropsForType n g T = Some (Inr props) \<and> p \<in> set (parent t)
              \<and> getPropsForType m g p = Some (Inr pps)
            \<longrightarrow> set pps \<subseteq> set props)"
proof (intro conjI iffI allI impI)
  assume "\<exists>n props. getPropsForType n g T = Some (Inr props)"
  then show "\<forall>p \<in> set (parent t). \<exists>m pps. getPropsForType m g p = Some (Inr pps)"
    using getPropsForType_parents [OF assms] by blast
next
  assume "\<forall>p \<in> set (parent t). \<exists>m pps. getPropsForType m g p = Some (Inr pps)"
  with assms show "\<exists>n props. getPropsForType n g T = Some (Inr props)"
    by (rule getPropsForType_returns_from_parents)
next
  fix n props p m pps
  assume a: "getPropsForType n g T = Some (Inr props) \<and> p \<in> set (parent t)
              \<and> getPropsForType m g p = Some (Inr pps)"
  with getPropsForType_parents [OF assms, of n props p] obtain m' pps'
    where "getPropsForType m' g p = Some (Inr pps')" and "set pps' \<subseteq> set props" by blast
  with a getPropsForType_deterministic [of m g p "Inr pps" m' "Inr pps'"]
  show "set pps \<subseteq> set props" by simp
qed

lemma example_props_Thing:
  "getPropsForType 1 example_graph ''Thing'' = Some (Inr [''name''])"
  by (simp add: findType_def example_graph_def SCHEMA_ORG_URL_REGEX_at_def)

theorem getPropsForType_inherits_witness:
  "findType example_graph ''Person'' = Some \<lparr>name = ''Person'', parent = [''Thing'']\<rparr>
   \<and> getPropsForType 2 example_graph ''Person'' = Some (Inr [''birthDate'', ''name''])
   \<and> getPropsForType 1 example_graph ''Thing'' = Some (Inr [''name''])
   \<and> set [''name''] \<subseteq> set [''birthDate'', ''name'']"
proof -
  have f: "findType example_graph ''Person'' = Some \<lparr>name = ''Person'', parent = [''Thing'']\<rparr>"
    by (rule example_findType)
  note h = getPropsForType_inherits [OF f, THEN conjunct2, rule_format,
      of 2 "[''birthDate'', ''name'']" "''Thing''" 1 "[''name'']"]
  have "set [''name''] \<subseteq> set [''birthDate'', ''name'']"
  proof (rule h, intro conjI)
    show "getPropsForType 2 example_graph ''Person'' = Some (Inr [''birthDate'', ''name''])"
      by (rule example_props_Person)
    show "''Thing'' \<in> set (parent \<lparr>name = ''Person'', parent = [''Thing'']\<rparr>)"
      by simp
    show "getPropsForType 1 example_graph ''Thing'' = Some (Inr [''name''])"
      by (rule example_props_Thing)
  qed
  with f example_props_Person example_props_Thing show ?thesis
    by (simp only: simp_thms)
qed

lemma findType_SomeD:
  assumes "findType g type = Some t"
  shows "name t = cleanName type" and "t \<in> set (types g)"
    and "find (\<lambda>typeObj. name typeObj = name t) (types g) = Some t"
proof -
  from assms have f: "find (\<lambda>typeObj. name typeObj = cleanName type) (types g) = Some t"
    by (simp add: findType_def)
  then show n: "name t = cleanName type" and "t \<in> set (types g)"
    by (auto simp: find_Some_iff)
  from f n show "find (\<lambda>typeObj. name typeObj = name t) (types g) = Some t" by simp
qed

lemma find_Some_mem: "find P xs = Some x \<Longrightarrow> x \<in> set xs"
  by (induction xs) (auto split: if_splits)

lemma parent_links_cases:
  assumes "(a, b) \<in> parent_links g"
  obtains p t where "a = cleanName p" and "b = name t" and "t \<in> set (types g)"
    and "p \<in> set (parent t)"
  using assms unfolding parent_links_def by (auto dest: find_Some_mem)

lemma finite_parent_links: "finite (parent_links g)"
proof (rule finite_subset)
  show "parent_links g \<subseteq>
          (cleanName ` (\<Union>t \<in> set (types g). set (parent t))) \<times> (name ` set (types g))"
  proof
    fix x assume x: "x \<in> parent_links g"
    obtain a b where ab: "x = (a, b)" by (cases x)
    with x obtain p t where "a = cleanName p" "b = name t" "t \<in> set (types g)" "p \<in> set (parent t)"
      by (auto elim: parent_links_cases)
    with ab show "x \<in> (cleanName ` (\<Union>t \<in> set (types g). set (parent t))) \<times> (name ` set (types g))"
      by blast
  qed
  show "finite ((cleanName ` (\<Union>t \<in> set (types g). set (parent t))) \<times> (name ` set (types g)))"
    by simp
qed

lemma getPropsForType_bounded_for_name:
  assumes "acyclic (parent_links g)"
  shows "\<exists>n. \<forall>type. cleanName type = c \<longrightarrow> getPropsForType n g type \<noteq> None"
proof -
  have "wf (parent_links g)"
    using finite_parent_links assms by (rule finite_acyclic_wf)
  then show ?thesis
  proof (induction c rule: wf_induct_rule)
    case (less c)
    show ?case
    proof (cases "find (\<lambda>typeObj. name typeObj = c) (types g)")
      case None
      then have "\<forall>type. cleanName type = c \<longrightarrow> getPropsForType (Suc 0) g type \<noteq> None"
        by (simp add: findType_def)
      then show ?thesis ..
    next
      case (Some t)
      then have c: "name t = c" and self: "find (\<lambda>typeObj. name typeObj = name t) (types g) = Some t"
        by (auto simp: find_Some_iff)
      have "\<forall>p \<in> set (parent t). \<exists>n. getPropsForType n g p \<noteq> None"
      proof
        fix p assume "p \<in> set (parent t)"
        with self c have "(cleanName p, c) \<in> parent_links g"
          by (auto simp: parent_links_def)
        from less.IH [OF this] show "\<exists>n. getPropsForType n g p \<noteq> None" by blast
      qed
      then have "\<exists>n. \<forall>p \<in> set (parent t). getPropsForType n g p \<noteq> None"
      proof (rule common_depth)
        fix m n p
        assume "getPropsForType m g p \<noteq> None" and "m \<le> n"
        then show "getPropsForType n g p \<noteq> None"
          using getPropsForType_le [of m g p _ n] by auto
      qed
      then obtain n where n: "\<forall>p \<in> set (parent t). getPropsForType n g p \<noteq> None" ..
      have "\<forall>type. cleanName type = c \<longrightarrow> getPropsForType (Suc n) g type \<noteq> None"
      proof (intro allI impI)
        fix type assume "cleanName type = c"
        with Some have "findType g type = Some t" by (simp add: findType_def)
        with reduce_parents_terminates [OF n] show "getPropsForType (Suc n) g type \<noteq> None"
          by simp
      qed
      then show ?thesis ..
    qed
  qed
qed

text \<open>On an acyclic graph one recursion depth is enough for every type.\<close>

lemma getPropsForType_bounded:
  assumes "acyclic (parent_links g)"
  shows "\<exists>n. \<forall>type. getPropsForType n g type \<noteq> None"
proof -
  let ?Q = "\<lambda>n c. \<forall>type. cleanName type = c \<longrightarrow> getPropsForType n g type \<noteq> None"
  have "\<forall>c \<in> set (map name (types g)). \<exists>n. ?Q n c"
    using getPropsForType_bounded_for_name [OF assms] by blast
  then have "\<exists>n. \<forall>c \<in> set (map name (types g)). ?Q n c"
  proof (rule common_depth)
    fix m n c
    assume q: "?Q m c" and le: "m \<le> n"
    show "?Q n c"
    proof (intro allI impI)
      fix type assume "cleanName type = c"
      with q have "getPropsForType m g type \<noteq> None" by blast
      with le show "getPropsForType n g type \<noteq> None"
        using getPropsForType_le [of m g type _ n] by auto
    qed
  qed
  then obtain n where n: "\<forall>c \<in> set (map name (types g)). ?Q n c" ..
  have "\<forall>type. getPropsForType (Suc n) g type \<noteq> None"
  proof
    fix type
    show "getPropsForType (Suc n) g type \<noteq> None"
    proof (cases "findType g type")
      case None
      then show ?thesis by simp
    next
      case (Some t)
      from findType_SomeD(1,2) [OF Some] n have "getPropsForType n g type \<noteq> None"
        by auto
      then show ?thesis
        using getPropsForType_Suc [of n g type] by auto
    qed
  qed
  then show ?thesis ..
qed

text \<open>
  C2, as amended: on a graph whose parent links have no cycle, \<open>getPropsForType\<close> comes
  back for every type, with a list or with the missing-type error: some recursion depth
  is enough.
\<close>

theorem getPropsForType_terminates_acyclic:
  assumes "acyclic (parent_links g)"
  shows "\<exists>depth r. getPropsForType depth g type = Some r"
  using getPropsForType_bounded [OF assms] by fastforce

lemma example_acyclic: "acyclic (parent_links example_graph)"
proof -
  have "parent_links example_graph \<subseteq> measure (\<lambda>s. if s = ''Thing'' then 0 else Suc 0)"
  proof
    fix x assume x: "x \<in> parent_links example_graph"
    obtain a b where ab: "x = (a, b)" by (cases x)
    with x obtain p t where pt: "a = cleanName p" "b = name t" "t \<in> set (types example_graph)"
      "p \<in> set (parent t)"
      by (auto elim: parent_links_cases)
    from pt(3,4) have "p = ''Thing'' \<and> name t \<noteq> ''Thing''"
      by (auto simp: example_graph_def)
    with pt(1,2) have "a = ''Thing'' \<and> b \<noteq> ''Thing''"
      by (simp add: SCHEMA_ORG_URL_REGEX_at_def)
    with ab show "x \<in> measure (\<lambda>s. if s = ''Thing'' then 0 else Suc 0)"
      by simp
  qed
  then have "wf (parent_links example_graph)"
    by (rule wf_subset [OF wf_measure])
  then show ?thesis by (rule wf_acyclic)
qed

theorem getPropsForType_terminates_acyclic_witness:
  "acyclic (parent_links example_graph)
   \<and> (\<exists>depth r. getPropsForType depth example_graph ''Person'' = Some r)
   \<and> getPropsForType 2 example_graph ''Person'' = Some (Inr [''birthDate'', ''name''])"
  using getPropsForType_terminates_acyclic [OF example_acyclic, of "''Person''"]
    example_acyclic example_props_Person
  by (simp del: getPropsForType.simps)

text \<open>
  C2 as stated fails: the code keeps no record of the types it has visited. On the graph
  whose only type \<open>A\<close> is its own parent the call for \<open>A\<close> calls itself for \<open>A\<close>, and no
  recursion depth is enough.
\<close>

lemma cyclic_graph_diverges: "getPropsForType depth cyclic_graph ''A'' = None"
proof (induction depth)
  case 0
  show ?case by simp
next
  case (Suc depth)
  have "findType cyclic_graph ''A'' = Some \<lparr>name = ''A'', parent = [''A'']\<rparr>"
    by (simp add: findType_def Let_def cyclic_graph_def SCHEMA_ORG_URL_REGEX_at_def)
  with Suc show ?case by simp
qed

theorem getPropsForType_cycle_counterexample:
  "\<not> (\<exists>depth r. getPropsForType depth cyclic_graph ''A'' = Some r)"
  by (simp add: cyclic_graph_diverges del: getPropsForType.simps)

subsection \<open>\<open>validateObjectKeys\<close>\<close>

text \<open>
  C9: keys that start with \<open>@\<close> never affect the result of \<open>validateObjectKeys\<close>: two key
  lists that agree once the keys starting with \<open>@\<close> are dropped give the same result, for
  every value of \<open>typeOrTypes\<close>.
\<close>

theorem validateObjectKeys_keyword_invariant:
  assumes "filter (\<lambda>key. \<not> is_keyword key) keys = filter (\<lambda>key. \<not> is_keyword key) keys'"
  shows "validateObjectKeys depth g typeOrTypes keys = validateObjectKeys depth g typeOrTypes keys'"
  unfolding validateObjectKeys_def Let_def assms by (rule refl)

theorem validateObjectKeys_keyword_invariant_witness:
  "validateObjectKeys 2 example_graph (JStr ''Person'') [''@id'', ''http://schema.org/bogus'', ''@type'']
     = validateObjectKeys 2 example_graph (JStr ''Person'') [''http://schema.org/bogus'']
   \<and> validateObjectKeys 2 example_graph (JStr ''Person'') [''http://schema.org/bogus'']
     = Some (Inr [unexpected_property ''bogus''])"
proof -
  have "filter (\<lambda>key. \<not> is_keyword key) [''@id'', ''http://schema.org/bogus'', ''@type'']
      = filter (\<lambda>key. \<not> is_keyword key) [''http://schema.org/bogus'']"
    by (simp add: is_keyword_def)
  from validateObjectKeys_keyword_invariant [OF this, of 2 example_graph "JStr ''Person''"]
  show ?thesis
    by (simp add: validateObjectKeys_def example_findType example_props_Person is_keyword_def
        SCHEMA_ORG_URL_REGEX_at_def strip_constraint_def suffix_def)
qed

text \<open>
  C1: when a declared type (a string, or a member of an array of strings) is not found in
  the graph, \<open>validateObjectKeys\<close> returns the \<open>Unrecognized schema.org type\<close> messages of
  the unknown types that match the schema.org pattern, in order, and nothing else: no key
  is checked, and no message is an \<open>Unexpected property\<close> message.
\<close>

theorem validateObjectKeys_unknown_type:
  assumes "typeOrTypes = JStr t \<and> ts = [t] \<or> typeOrTypes = JArr (map JStr ts)"
    and "\<exists>t \<in> set ts. findType g t = None"
  shows "validateObjectKeys depth g typeOrTypes keys =
           Some (Inr (map unrecognized_type
                        (filter SCHEMA_ORG_URL_REGEX_test (filter (\<lambda>t. findType g t = None) ts))))
         \<and> (\<forall>msgs. validateObjectKeys depth g typeOrTypes keys = Some (Inr msgs) \<longrightarrow>
               (\<forall>m \<in> set msgs. prefix ''Unrecognized schema.org type '' m
                              \<and> \<not> prefix ''Unexpected property'' m))"
proof -
  have u: "filter (\<lambda>t. findType g t = None) ts \<noteq> []"
    using assms(2) by (auto simp: filter_empty_conv)
  have r: "validateObjectKeys depth g typeOrTypes keys =
           Some (Inr (map unrecognized_type
                        (filter SCHEMA_ORG_URL_REGEX_test (filter (\<lambda>t. findType g t = None) ts))))"
    using assms(1)
  proof
    assume "typeOrTypes = JStr t \<and> ts = [t]"
    with u show ?thesis
      using unknownTypes_of_strings [of g "[t]"]
      by (simp add: validateObjectKeys_def del: unknownTypes_of.simps)
  next
    assume "typeOrTypes = JArr (map JStr ts)"
    with u show ?thesis
      by (simp add: validateObjectKeys_def unknownTypes_of_strings)
  qed
  show ?thesis
    unfolding r by (auto simp: unrecognized_type_def)
qed

theorem validateObjectKeys_unknown_type_witness:
  "validateObjectKeys 0 example_graph
      (JArr [JStr ''Person'', JStr ''https://schema.org/NotAType'', JStr ''Foreign''])
      [''http://schema.org/bogus'']
     = Some (Inr [''Unrecognized schema.org type https://schema.org/NotAType''])"
proof -
  have a: "JArr [JStr ''Person'', JStr ''https://schema.org/NotAType'', JStr ''Foreign'']
             = JArr (map JStr [''Person'', ''https://schema.org/NotAType'', ''Foreign''])"
    by simp
  have b: "\<exists>t \<in> set [''Person'', ''https://schema.org/NotAType'', ''Foreign''].
             findType example_graph t = None"
    by (simp add: example_findType)
  from validateObjectKeys_unknown_type [OF disjI2 [OF a] b, of 0 "[''http://schema.org/bogus'']"]
  show ?thesis
    by (simp add: example_findType unrecognized_type_def SCHEMA_ORG_URL_REGEX_at_def)
qed

text \<open>The three kinds of message never mix in one result: what a call returns is the single
  \<open>Unknown value type\<close> message, or messages about unrecognized types only, or messages
  about unexpected properties only.\<close>

lemma validateObjectKeys_messages_exclusive:
  assumes "validateObjectKeys depth g typeOrTypes keys = Some (Inr msgs)"
  shows "msgs = [''Unknown value type'']
         \<or> (\<forall>m \<in> set msgs. prefix ''Unrecognized schema.org type '' m)
         \<or> (\<forall>m \<in> set msgs. prefix ''Unexpected property '' m)"
  using assms
  by (auto simp: validateObjectKeys_def unrecognized_type_def unexpected_property_def
      split: json.splits sum.splits option.splits if_splits)

subsection \<open>\<open>validateSchemaOrg\<close>\<close>

text \<open>
  C7: for every object \<open>x\<close>, \<open>validateSchemaOrg\<close> on the array \<open>[x]\<close> returns what it returns
  on \<open>x\<close>.
\<close>

theorem validateSchemaOrg_single_element_array:
  "validateSchemaOrg walk depth g (JArr [JObj kvs]) = validateSchemaOrg walk depth g (JObj kvs)"
  by (simp add: validateSchemaOrg_def)

lemma validateSchemaOrg_wrapped_general:
  assumes "x \<noteq> JNull" and "\<And>y. x \<noteq> JArr [y]"
  shows "validateSchemaOrg walk depth g (JArr [x]) = validateSchemaOrg walk depth g x"
  using assms by (cases x) (auto simp add: validateSchemaOrg_def split: list.splits)

lemma parents_resolve_found:
  assumes "parents_resolve g" and "findType g type = Some t" and "p \<in> set (parent t)"
  shows "findType g p \<noteq> None"
  using assms findType_SomeD(2) [OF assms(2)]
  by (auto simp: parents_resolve_def list_all_iff)

lemma getPropsForType_no_throw:
  assumes "parents_resolve g"
  shows "findType g type \<noteq> None \<Longrightarrow> getPropsForType depth g type \<noteq> Some (Inl e)"
proof (induction depth arbitrary: type e)
  case 0
  show ?case by simp
next
  case (Suc depth)
  from Suc.prems obtain t where t: "findType g type = Some t" by auto
  have "\<forall>p \<in> set (parent t). \<forall>e. getPropsForType depth g p \<noteq> Some (Inl e)"
  proof (intro ballI allI)
    fix p e assume "p \<in> set (parent t)"
    then have "findType g p \<noteq> None"
      by (rule parents_resolve_found [OF assms t])
    then show "getPropsForType depth g p \<noteq> Some (Inl e)"
      by (rule Suc.IH)
  qed
  from reduce_parents_no_throw [OF this] t show ?case by simp
qed

lemma unknownTypes_of_throws: "unknownTypes_of g declared = Inl e \<Longrightarrow> e = TypeError"
  by (induction g declared rule: unknownTypes_of.induct) (auto split: sum.splits)

lemma unknownTypes_of_well_typed:
  "list_all is_string declared \<Longrightarrow> unknownTypes_of g declared \<noteq> Inl e"
  by (induction g declared rule: unknownTypes_of.induct) (auto split: sum.splits)

lemma unknownTypes_of_none:
  "unknownTypes_of g declared = Inr [] \<Longrightarrow>
     \<forall>j \<in> set declared. \<exists>t. j = JStr t \<and> findType g t \<noteq> None"
  by (induction g declared rule: unknownTypes_of.induct) (auto split: sum.splits if_splits)

lemma build_safelist_no_throw:
  assumes "parents_resolve g"
  shows "\<forall>j \<in> set declared. \<exists>t. j = JStr t \<and> findType g t \<noteq> None \<Longrightarrow>
         build_safelist depth g declared safelist \<noteq> Some (Inl e)"
proof (induction declared arbitrary: safelist)
  case Nil
  show ?case by simp
next
  case (Cons j declared)
  then obtain t where t: "j = JStr t" "findType g t \<noteq> None" by auto
  from getPropsForType_no_throw [OF assms t(2)] Cons t(1) show ?case
    by (auto split: option.splits sum.splits)
qed

lemma build_safelist_terminates:
  assumes "\<forall>type. getPropsForType depth g type \<noteq> None"
  shows "build_safelist depth g declared safelist \<noteq> None"
  using assms
  by (induction depth g declared safelist rule: build_safelist.induct)
     (auto split: option.splits sum.splits)

lemma validateObjectKeys_not_declared:
  "declared_types typeOrTypes = None \<Longrightarrow>
     validateObjectKeys depth g typeOrTypes keys = Some (Inr [''Unknown value type''])"
  by (simp add: validateObjectKeys_def declared_types_def)

lemma validateObjectKeys_declared:
  assumes "declared_types typeOrTypes = Some declared"
  shows "validateObjectKeys depth g typeOrTypes keys =
     (case unknownTypes_of g declared of
        Inl e \<Rightarrow> Some (Inl e)
      | Inr unknownTypes \<Rightarrow>
          if unknownTypes \<noteq> [] then
            Some (Inr (map unrecognized_type (filter SCHEMA_ORG_URL_REGEX_test unknownTypes)))
          else
            (case build_safelist depth g declared [] of
               None \<Rightarrow> None
             | Some (Inl e) \<Rightarrow> Some (Inl e)
             | Some (Inr safelist) \<Rightarrow>
                 Some (Inr (map unexpected_property
                              (filter (\<lambda>key. key \<notin> set safelist)
                                 (map strip_constraint
                                    (map cleanName (filter (\<lambda>key. \<not> is_keyword key) keys))))))))"
  using assms unfolding validateObjectKeys_def declared_types_def Let_def
  by (simp only: option.case)

lemma validateObjectKeys_throws:
  assumes "declared_types typeOrTypes = Some declared"
    and "validateObjectKeys depth g typeOrTypes keys = Some (Inl e)"
  shows "unknownTypes_of g declared = Inl e
         \<or> unknownTypes_of g declared = Inr [] \<and> build_safelist depth g declared [] = Some (Inl e)"
proof (cases "unknownTypes_of g declared")
  case (Inl e')
  with assms(2) show ?thesis
    by (simp add: validateObjectKeys_declared [OF assms(1)])
next
  case (Inr us)
  show ?thesis
  proof (cases "us = []")
    case False
    with Inr assms(2) show ?thesis
      by (simp add: validateObjectKeys_declared [OF assms(1)])
  next
    case True
    with Inr assms(2) show ?thesis
      by (cases "build_safelist depth g declared []")
         (auto simp: validateObjectKeys_declared [OF assms(1)] split: sum.splits)
  qed
qed

lemma validateObjectKeys_diverges:
  assumes "validateObjectKeys depth g typeOrTypes keys = None"
  shows "\<exists>declared. build_safelist depth g declared [] = None"
proof (cases "declared_types typeOrTypes")
  case None
  from validateObjectKeys_not_declared [OF this] assms show ?thesis by simp
next
  case (Some declared)
  have "build_safelist depth g declared [] = None"
  proof (cases "unknownTypes_of g declared")
    case (Inl e')
    with assms show ?thesis
      by (simp add: validateObjectKeys_declared [OF Some])
  next
    case (Inr us)
    with assms show ?thesis
      by (cases "build_safelist depth g declared []")
         (auto simp: validateObjectKeys_declared [OF Some] split: sum.splits if_splits)
  qed
  then show ?thesis ..
qed

lemma validateObjectKeys_no_missing_type:
  assumes "parents_resolve g"
  shows "validateObjectKeys depth g typeOrTypes keys \<noteq> Some (Inl (MissingType s))"
proof
  assume thrown: "validateObjectKeys depth g typeOrTypes keys = Some (Inl (MissingType s))"
  show False
  proof (cases "declared_types typeOrTypes")
    case None
    from validateObjectKeys_not_declared [OF this] thrown show False by simp
  next
    case (Some declared)
    from validateObjectKeys_throws [OF Some thrown] show False
    proof
      assume "unknownTypes_of g declared = Inl (MissingType s)"
      from unknownTypes_of_throws [OF this] show False by simp
    next
      assume "unknownTypes_of g declared = Inr []
                \<and> build_safelist depth g declared [] = Some (Inl (MissingType s))"
      with build_safelist_no_throw [OF assms unknownTypes_of_none, of declared depth "[]"]
      show False by blast
    qed
  qed
qed

lemma validateObjectKeys_no_throw:
  assumes "parents_resolve g"
    and "case typeOrTypes of JArr ts \<Rightarrow> list_all is_string ts | _ \<Rightarrow> True"
  shows "validateObjectKeys depth g typeOrTypes keys \<noteq> Some (Inl e)"
proof
  assume thrown: "validateObjectKeys depth g typeOrTypes keys = Some (Inl e)"
  show False
  proof (cases "declared_types typeOrTypes")
    case None
    from validateObjectKeys_not_declared [OF this] thrown show False by simp
  next
    case (Some declared)
    with assms(2) have "list_all is_string declared"
      by (auto simp: declared_types_def split: json.splits)
    then have u: "unknownTypes_of g declared \<noteq> Inl e"
      by (rule unknownTypes_of_well_typed)
    from validateObjectKeys_throws [OF Some thrown] u
    have "unknownTypes_of g declared = Inr []"
      and "build_safelist depth g declared [] = Some (Inl e)" by blast+
    with build_safelist_no_throw [OF assms(1) unknownTypes_of_none, of declared depth "[]"]
    show False by blast
  qed
qed

lemma validateObjectKeys_terminates:
  assumes "\<forall>type. getPropsForType depth g type \<noteq> None"
  shows "validateObjectKeys depth g typeOrTypes keys \<noteq> None"
  using validateObjectKeys_diverges [of depth g typeOrTypes keys]
    build_safelist_terminates [OF assms]
  by blast

lemma callback_no_missing_type:
  assumes "parents_resolve g"
  shows "callback depth g v errors \<noteq> Some (Inl (MissingType s))"
proof -
  have "object_keys obj \<noteq> Inl (MissingType s)" for obj
    by (cases obj) simp_all
  with validateObjectKeys_no_missing_type [OF assms] show ?thesis
    unfolding callback_def
    by (auto split: prod.splits option.splits sum.splits)
qed

lemma callback_no_throw:
  assumes "parents_resolve g" and "well_typed_visit v"
  shows "callback depth g v errors \<noteq> Some (Inl e)"
proof -
  obtain nm val segs obj where v: "v = (nm, val, segs, obj)" by (cases v)
  show ?thesis
  proof (cases "nm = TYPE_KEYWORD")
    case False
    with v show ?thesis by (simp add: callback_def)
  next
    case True
    with assms(2) v have obj: "obj \<noteq> JNull"
      and val: "case val of JArr ts \<Rightarrow> list_all is_string ts | _ \<Rightarrow> True"
      by (simp_all add: well_typed_visit_def)
    from obj obtain keys where keys: "object_keys obj = Inr keys"
      by (cases obj) simp_all
    from validateObjectKeys_no_throw [OF assms(1) val, of depth keys] v True keys
    show ?thesis
      by (auto simp: callback_def split: option.splits sum.splits)
  qed
qed

lemma callback_terminates:
  assumes "\<forall>type. getPropsForType depth g type \<noteq> None"
  shows "callback depth g v errors \<noteq> None"
proof -
  obtain nm val segs obj where v: "v = (nm, val, segs, obj)" by (cases v)
  show ?thesis
  proof (cases "object_keys obj")
    case (Inl e)
    with v show ?thesis by (simp add: callback_def)
  next
    case (Inr keys)
    with v validateObjectKeys_terminates [OF assms, of val keys] show ?thesis
      by (auto simp: callback_def split: sum.splits)
  qed
qed

lemma visit_all_no_missing_type:
  assumes "parents_resolve g"
  shows "visit_all depth g vs errors \<noteq> Some (Inl (MissingType s))"
  using callback_no_missing_type [OF assms]
  by (induction vs arbitrary: errors) (auto split: option.splits sum.splits)

lemma visit_all_no_throw:
  assumes "parents_resolve g"
  shows "list_all well_typed_visit vs \<Longrightarrow> visit_all depth g vs errors \<noteq> Some (Inl e)"
  using callback_no_throw [OF assms]
  by (induction vs arbitrary: errors) (auto split: option.splits sum.splits)

lemma visit_all_terminates:
  assumes "\<forall>type. getPropsForType depth g type \<noteq> None"
  shows "visit_all depth g vs errors \<noteq> None"
  using callback_terminates [OF assms]
  by (induction vs arbitrary: errors) (auto split: option.splits sum.splits)

lemma validateSchemaOrg_unwrapped:
  "validateSchemaOrg walk depth g expandedObj =
     (if expandedObj = JNull then Some (Inr [])
      else visit_all depth g (walk (unwrapped expandedObj)) [])"
  by (simp add: validateSchemaOrg_def unwrapped_def)

text \<open>
  C4: on a graph in which every parent name resolves, the missing-type error of
  \<open>getPropsForType\<close> never reaches the caller of \<open>validateSchemaOrg\<close>, for any document, walker
  and recursion depth: \<open>validateObjectKeys\<close> resolves properties only after it has found
  every declared type. When the type keyword's values are as the input contract says,
  nothing at all is thrown; and when, in addition, the parent links have no cycle,
  \<open>validateSchemaOrg\<close> returns its list of errors.
\<close>

theorem validateSchemaOrg_never_missing_type:
  assumes "parents_resolve g"
  shows "(\<forall>depth s. validateSchemaOrg walk depth g expandedObj \<noteq> Some (Inl (MissingType s)))
       \<and> (list_all well_typed_visit (walk (unwrapped expandedObj)) \<longrightarrow>
            (\<forall>depth e. validateSchemaOrg walk depth g expandedObj \<noteq> Some (Inl e)))
       \<and> (acyclic (parent_links g) \<and> list_all well_typed_visit (walk (unwrapped expandedObj)) \<longrightarrow>
            (\<exists>depth errors. validateSchemaOrg walk depth g expandedObj = Some (Inr errors)))"
proof (intro conjI allI impI)
  fix depth s
  show "validateSchemaOrg walk depth g expandedObj \<noteq> Some (Inl (MissingType s))"
    using visit_all_no_missing_type [OF assms]
    by (simp add: validateSchemaOrg_unwrapped)
next
  fix depth e
  assume "list_all well_typed_visit (walk (unwrapped expandedObj))"
  then show "validateSchemaOrg walk depth g expandedObj \<noteq> Some (Inl e)"
    using visit_all_no_throw [OF assms]
    by (simp add: validateSchemaOrg_unwrapped)
next
  assume a: "acyclic (parent_links g) \<and> list_all well_typed_visit (walk (unwrapped expandedObj))"
  then obtain depth where d: "\<forall>type. getPropsForType depth g type \<noteq> None"
    using getPropsForType_bounded by blast
  have "validateSchemaOrg walk depth g expandedObj \<noteq> None"
    using visit_all_terminates [OF d] by (simp add: validateSchemaOrg_unwrapped)
  moreover have "validateSchemaOrg walk depth g expandedObj \<noteq> Some (Inl e)" for e
    using visit_all_no_throw [OF assms] a by (simp add: validateSchemaOrg_unwrapped)
  ultimately obtain errors where "validateSchemaOrg walk depth g expandedObj = Some (Inr errors)"
    by (cases "validateSchemaOrg walk depth g expandedObj") (auto intro: sum.exhaust [of "the (validateSchemaOrg walk depth g expandedObj)"])
  then show "\<exists>depth errors. validateSchemaOrg walk depth g expandedObj = Some (Inr errors)"
    by blast
qed

lemma callback_type_keyword:
  assumes "callback depth g (nm, val, segs, obj) acc = Some (Inr errors)" and "nm = TYPE_KEYWORD"
  shows "\<exists>keys. object_keys obj = Inr keys
           \<and> validateObjectKeys depth g val keys
               = Some (Inr (keyErrorMessages_of depth g (nm, val, segs, obj)))"
    and "errors = acc @ map (\<lambda>msg. \<lparr>path = error_path segs, message = msg\<rparr>)
                          (keyErrorMessages_of depth g (nm, val, segs, obj))"
proof -
  from assms obtain keys where keys: "object_keys obj = Inr keys"
    by (cases "object_keys obj") (simp_all add: callback_def)
  with assms obtain msgs where msgs: "validateObjectKeys depth g val keys = Some (Inr msgs)"
    by (cases "validateObjectKeys depth g val keys")
       (auto simp: callback_def split: sum.splits)
  from keys msgs have k: "keyErrorMessages_of depth g (nm, val, segs, obj) = msgs"
    by (simp add: keyErrorMessages_of_def)
  from keys msgs k
  show "\<exists>keys. object_keys obj = Inr keys
           \<and> validateObjectKeys depth g val keys
               = Some (Inr (keyErrorMessages_of depth g (nm, val, segs, obj)))"
    by simp
  from assms keys msgs k
  show "errors = acc @ map (\<lambda>msg. \<lparr>path = error_path segs, message = msg\<rparr>)
                          (keyErrorMessages_of depth g (nm, val, segs, obj))"
    by (simp add: callback_def)
qed

lemma callback_other_key:
  assumes "callback depth g (nm, val, segs, obj) acc = Some (Inr errors)" and "nm \<noteq> TYPE_KEYWORD"
  shows "errors = acc"
  using assms by (simp add: callback_def)

lemma visit_all_errors:
  assumes "visit_all depth g vs acc = Some (Inr errors)"
  shows "errors = acc @ concat (map (\<lambda>(nm, val, segs, obj).
                          map (\<lambda>msg. \<lparr>path = error_path segs, message = msg\<rparr>)
                            (keyErrorMessages_of depth g (nm, val, segs, obj)))
                     (filter (\<lambda>(nm, val, segs, obj). nm = TYPE_KEYWORD) vs))
         \<and> (\<forall>(nm, val, segs, obj) \<in> set vs. nm = TYPE_KEYWORD \<longrightarrow>
               (\<exists>keys. object_keys obj = Inr keys
                  \<and> validateObjectKeys depth g val keys
                      = Some (Inr (keyErrorMessages_of depth g (nm, val, segs, obj)))))"
  using assms
proof (induction vs arbitrary: acc)
  case Nil
  then show ?case by simp
next
  case (Cons v vs)
  obtain nm val segs obj where v: "v = (nm, val, segs, obj)" by (cases v)
  from Cons.prems obtain acc' where c: "callback depth g v acc = Some (Inr acc')"
    and rest: "visit_all depth g vs acc' = Some (Inr errors)"
    by (cases "callback depth g v acc") (auto split: sum.splits)
  note ih = Cons.IH [OF rest]
  show ?case
  proof (cases "nm = TYPE_KEYWORD")
    case True
    from callback_type_keyword [OF c [unfolded v] True] ih v True show ?thesis
      by simp
  next
    case False
    from callback_other_key [OF c [unfolded v] False] ih v False show ?thesis
      by simp
  qed
qed

text \<open>
  C5: when \<open>validateSchemaOrg\<close> returns, its errors are, for the visits of the type keyword
  in the order of the walk, the messages of \<open>validateObjectKeys\<close> at that visit (called on the
  value and the keys of the enclosing object), each paired with the path of the visit
  without its last segment, every segment cleaned, joined with \<open>/\<close> after a leading \<open>/\<close>.
\<close>

theorem validateSchemaOrg_error_paths:
  assumes "validateSchemaOrg walk depth g expandedObj = Some (Inr errors)"
    and "expandedObj \<noteq> JNull"
  shows "errors = concat (map (\<lambda>(nm, val, segs, obj).
                      map (\<lambda>msg. \<lparr>path = ''/'' @ join (map cleanName (butlast segs)), message = msg\<rparr>)
                        (keyErrorMessages_of depth g (nm, val, segs, obj)))
                   (filter (\<lambda>(nm, val, segs, obj). nm = TYPE_KEYWORD)
                      (walk (unwrapped expandedObj))))
         \<and> (\<forall>(nm, val, segs, obj) \<in> set (walk (unwrapped expandedObj)). nm = TYPE_KEYWORD \<longrightarrow>
               (\<exists>keys. object_keys obj = Inr keys
                  \<and> validateObjectKeys depth g val keys
                      = Some (Inr (keyErrorMessages_of depth g (nm, val, segs, obj)))))"
proof -
  from assms have "visit_all depth g (walk (unwrapped expandedObj)) [] = Some (Inr errors)"
    by (simp add: validateSchemaOrg_unwrapped)
  from visit_all_errors [OF this] show ?thesis
    by (simp add: error_path_def)
qed

lemma example_nested_walk:
  "walkObject (unwrapped nested_document) [] =
     [(''http://schema.org/parentKey'',
         JObj [(''http://schema.org/childKey'',
                JObj [(''@type'', JStr ''Person''), (''http://schema.org/bogus'', JStr ''x'')])],
         [''http://schema.org/parentKey''], nested_document),
      (''http://schema.org/childKey'',
         JObj [(''@type'', JStr ''Person''), (''http://schema.org/bogus'', JStr ''x'')],
         [''http://schema.org/parentKey'', ''http://schema.org/childKey''],
         JObj [(''http://schema.org/childKey'',
                JObj [(''@type'', JStr ''Person''), (''http://schema.org/bogus'', JStr ''x'')])]),
      (''@type'', JStr ''Person'',
         [''http://schema.org/parentKey'', ''http://schema.org/childKey'', ''@type''],
         JObj [(''@type'', JStr ''Person''), (''http://schema.org/bogus'', JStr ''x'')]),
      (''http://schema.org/bogus'', JStr ''x'',
         [''http://schema.org/parentKey'', ''http://schema.org/childKey'', ''http://schema.org/bogus''],
         JObj [(''@type'', JStr ''Person''), (''http://schema.org/bogus'', JStr ''x'')])]"
  by (simp add: nested_document_def unwrapped_def)

lemma example_nested_keys:
  "validateObjectKeys 2 example_graph (JStr ''Person'') [''@type'', ''http://schema.org/bogus'']
     = Some (Inr [unexpected_property ''bogus''])"
  by (simp add: validateObjectKeys_def example_findType example_props_Person is_keyword_def
      SCHEMA_ORG_URL_REGEX_at_def strip_constraint_def suffix_def)

lemma example_nested_result:
  "validateSchemaOrg (\<lambda>obj. walkObject obj []) 2 example_graph nested_document
     = Some (Inr [\<lparr>path = ''/parentKey/childKey'', message = unexpected_property ''bogus''\<rparr>])"
proof -
  have "nested_document \<noteq> JNull" by (simp add: nested_document_def)
  then show ?thesis
    by (simp add: validateSchemaOrg_unwrapped example_nested_walk callback_def TYPE_KEYWORD_def
        example_nested_keys error_path_def SCHEMA_ORG_URL_REGEX_at_def)
qed

theorem validateSchemaOrg_error_paths_witness:
  "validateSchemaOrg (\<lambda>obj. walkObject obj []) 2 example_graph nested_document
     = Some (Inr [\<lparr>path = ''/parentKey/childKey'', message = unexpected_property ''bogus''\<rparr>])
   \<and> [\<lparr>path = ''/parentKey/childKey'', message = unexpected_property ''bogus''\<rparr>]
     = concat (map (\<lambda>(nm, val, segs, obj).
                 map (\<lambda>msg. \<lparr>path = ''/'' @ join (map cleanName (butlast segs)), message = msg\<rparr>)
                   (keyErrorMessages_of 2 example_graph (nm, val, segs, obj)))
              (filter (\<lambda>(nm, val, segs, obj). nm = TYPE_KEYWORD)
                 (walkObject (unwrapped nested_document) [])))"
proof -
  have n: "nested_document \<noteq> JNull" by (simp add: nested_document_def)
  from validateSchemaOrg_error_paths [OF example_nested_result n] example_nested_result
  show ?thesis by (simp only: simp_thms)
qed

theorem validateSchemaOrg_never_missing_type_witness:
  "parents_resolve example_graph
   \<and> acyclic (parent_links example_graph)
   \<and> list_all well_typed_visit (walkObject (unwrapped nested_document) [])
   \<and> (\<exists>depth errors. validateSchemaOrg (\<lambda>obj. walkObject obj []) depth example_graph nested_document
                         = Some (Inr errors))
   \<and> validateSchemaOrg (\<lambda>obj. walkObject obj []) 2 example_graph nested_document
       \<noteq> Some (Inl (MissingType ''Person''))"
proof -
  have p: "parents_resolve example_graph"
    by (simp add: parents_resolve_def example_graph_def findType_def SCHEMA_ORG_URL_REGEX_at_def)
  have w: "list_all well_typed_visit (walkObject (unwrapped nested_document) [])"
    by (simp add: example_nested_walk well_typed_visit_def TYPE_KEYWORD_def)
  from validateSchemaOrg_never_missing_type [OF p, of "\<lambda>obj. walkObject obj []" nested_document]
    p w example_acyclic
  show ?thesis by blast
qed

end
